theory Spec2Isabelle
  imports Main
begin

section \<open>Values, listeners and the store\<close>

text \<open>
  Payloads are JavaScript values. Only the shapes the hub handles are kept: the absent
  payload, numbers, strings, the tagged object \<open>{name, details}\<close> that the hub emits
  on its internal channel, and arrays (the value of a stack-like channel).
\<close>

datatype val = Undefined | Num int | Str string | Tagged string val | Arr "val list"

type_synonym addr = nat
type_synonym lid = nat
type_synonym ref = nat

text \<open>
  An unsubscribe handle is the function that \<open>listen\<close> returned: it is bound to a bus
  and to one registration on it. Code can call only the handles it has received.
\<close>

type_synonym handle = "addr \<times> lid"

text \<open>
  A listener is a callback. Its body is a sequence of the operations a callback can
  perform on buses; the argument it was called with is the payload.
  \<^item> \<open>EmitOn a v\<close>: \<open>a.emit(v)\<close>;
  \<^item> \<open>Forward g name\<close>: \<open>g.emit({ name, details: payload })\<close>, the body of the arrow
    function of \<open>eventHub.ts\<close> line 84;
  \<^item> \<open>Unsub k\<close>: call the \<open>k\<close>-th unsubscribe handle that client code has received;
  \<^item> \<open>Sub a cb\<close>: \<open>a.listen(cb)\<close>, keeping the handle;
  \<^item> \<open>Throw\<close>: \<open>throw\<close>.
\<close>

datatype op =
    EmitOn addr val
  | Forward addr string
  | Unsub nat
  | Sub addr "op list"
  | Throw

type_synonym listener = "op list"

text \<open>
  The history of what happened, in which calls are observed: a listener (identified by
  its bus and its registration) called with a payload, and an unsubscribe handle called.
\<close>

datatype event = Invoked addr lid val | HandleCalled addr lid

text \<open>
  A bus holds its registrations in registration order, the number of the next
  registration, and the payloads emitted on it so far, which only a stateful channel
  exposes (through \<open>value()\<close>).
\<close>

record bus =
  listeners :: "(lid \<times> listener) list"
  next_lid :: lid
  stack :: "val list"

text \<open>
  A channel object (\<open>EventHubChannel\<close>, lines 34 to 38): its \<open>listen\<close> and \<open>emit\<close>
  members are those of the bus at \<open>target\<close>; \<open>value\<close> is optional. An accessor is a
  function; what it returns may depend on the state of the buses and, when it is written
  as a method, on the object it is called on.
\<close>

datatype receiver = ThisChannel addr | ThisStore

type_synonym accessor = "receiver \<Rightarrow> (addr \<Rightarrow> bus) \<Rightarrow> val"

record channel =
  target :: addr
  chan_value :: "accessor option"

section \<open>Plain objects\<close>

text \<open>
  An object is the list of its own properties in creation order; writing a property of
  a name it has replaces the value. Every object literal inherits the members of
  \<open>Object.prototype\<close>, which the \<open>in\<close> operator and a member access see as well as
  the own properties.
\<close>

type_synonym 'a obj = "(string \<times> 'a) list"

definition object_prototype :: "string list" where
  "object_prototype =
     [''constructor'', ''__defineGetter__'', ''__defineSetter__'', ''hasOwnProperty'',
      ''__lookupGetter__'', ''__lookupSetter__'', ''isPrototypeOf'',
      ''propertyIsEnumerable'', ''toString'', ''valueOf'', ''__proto__'',
      ''toLocaleString'']"

fun put :: "string \<Rightarrow> 'a \<Rightarrow> 'a obj \<Rightarrow> 'a obj" where
  "put k v [] = [(k, v)]"
| "put k v ((k', v') # ob) = (if k' = k then (k, v) # ob else (k', v') # put k v ob)"

definition object_literal :: "'a obj \<Rightarrow> 'a obj" where
  "object_literal props = fold (\<lambda>(k, v). put k v) props []"

definition own :: "'a obj \<Rightarrow> string \<Rightarrow> 'a option" where
  "own ob k = map_of ob k"

definition has_own :: "'a obj \<Rightarrow> string \<Rightarrow> bool" where
  "has_own ob k = (k \<in> fst ` set ob)"

definition is_in :: "string \<Rightarrow> 'a obj \<Rightarrow> bool" where
  "is_in k ob = (has_own ob k \<or> k \<in> set object_prototype)"

text \<open>
  \<open>ob[k]\<close>: the own property, else a member inherited from \<open>Object.prototype\<close> (a
  function or an object, never a channel), else \<open>undefined\<close>.
\<close>

datatype 'a member = Own 'a | Inherited | Absent

definition get_member :: "'a obj \<Rightarrow> string \<Rightarrow> 'a member" where
  "get_member ob k =
     (case own ob k of
        Some v \<Rightarrow> Own v
      | None \<Rightarrow> if k \<in> set object_prototype then Inherited else Absent)"

section \<open>The state\<close>

text \<open>
  Buses and channel mappings are shared, mutable objects, so they live in a store: the
  buses by address, the mapping objects by reference. The state also has the unsubscribe
  handles that client code has received, in the order it received them, and the
  history.
\<close>

record world =
  heap :: "addr \<Rightarrow> bus"
  fresh :: addr
  objects :: "ref \<Rightarrow> channel obj"
  next_ref :: ref
  handles :: "handle list"
  events :: "event list"

text \<open>
  What a call can throw: a TypeError (a member access on \<open>undefined\<close>, a call of
  something that is not a function), the RangeError of a call stack that is exhausted,
  and what a listener throws. A call returns normally in a new state (\<open>Done\<close>) or
  throws, leaving the state it had reached (\<open>Thrown\<close>).
\<close>

datatype exn = TypeError | RangeError | UserError

datatype outcome = Done world | Thrown exn world

fun state_of :: "outcome \<Rightarrow> world" where
  "state_of (Done w) = w"
| "state_of (Thrown e w) = w"

text \<open>
  An object literal evaluated by client code makes a new mapping object;
  \<open>m[name] = bus\<close> writes a property of a mapping object.
\<close>

definition new_object :: "channel obj \<Rightarrow> world \<Rightarrow> ref \<times> world" where
  "new_object props w =
     (next_ref w,
      w\<lparr>objects := (objects w)(next_ref w := object_literal props), next_ref := Suc (next_ref w)\<rparr>)"

definition set_channel :: "ref \<Rightarrow> string \<Rightarrow> channel \<Rightarrow> world \<Rightarrow> world" where
  "set_channel m name bus w = w\<lparr>objects := (objects w)(m := put name bus (objects w m))\<rparr>"

text \<open>Client code keeps a handle it has received; the history notes the call of one.\<close>

definition keep :: "handle \<Rightarrow> world \<Rightarrow> world" where
  "keep u w = w\<lparr>handles := handles w @ [u]\<rparr>"

definition called :: "addr \<Rightarrow> lid \<Rightarrow> world \<Rightarrow> world" where
  "called a i w = w\<lparr>events := events w @ [HandleCalled a i]\<rparr>"

section \<open>The channel contract\<close>

text \<open>
  Modelled from the spec: \<open>createEventBus\<close> (\<open>./eventBus\<close>) is imported by
  \<open>eventHub.ts\<close> and is not among the sources. The spec's channel contract (4.1, 3):
  \<open>listen(cb)\<close> registers \<open>cb\<close> and returns an unregistration function; registrations
  are independent and ordered by registration time; calling the unregistration function
  again is a no-op; \<open>emit(payload)\<close> synchronously invokes every currently registered
  callback with \<open>payload\<close>, in registration order; unsubscribing a listener prevents any
  further invocation of it, even for an emission already in flight; an exception thrown
  by a listener propagates out of \<open>emit\<close>.
\<close>

definition empty_bus :: bus where
  "empty_bus = \<lparr>listeners = [], next_lid = 0, stack = []\<rparr>"

definition bus_listen :: "addr \<Rightarrow> listener \<Rightarrow> world \<Rightarrow> handle \<times> world" where
  "bus_listen a cb w =
     (let b = heap w a; i = next_lid b
      in ((a, i), w\<lparr>heap := (heap w)(a := b\<lparr>listeners := listeners b @ [(i, cb)],
                                                 next_lid := Suc i\<rparr>)\<rparr>))"

definition registered :: "world \<Rightarrow> addr \<Rightarrow> lid \<Rightarrow> bool" where
  "registered w a i = (i \<in> fst ` set (listeners (heap w a)))"

text \<open>
  What the unregistration function of registration \<open>i\<close> on bus \<open>a\<close> does: it removes
  the registration; a later call finds nothing to remove.
\<close>

definition bus_unlisten :: "addr \<Rightarrow> lid \<Rightarrow> world \<Rightarrow> world" where
  "bus_unlisten a i w =
     w\<lparr>heap := (heap w)(a := (heap w a)\<lparr>listeners :=
          filter (\<lambda>(j, cb). j \<noteq> i) (listeners (heap w a))\<rparr>)\<rparr>"

definition record_payload :: "addr \<Rightarrow> val \<Rightarrow> world \<Rightarrow> world" where
  "record_payload a p w =
     w\<lparr>heap := (heap w)(a := (heap w a)\<lparr>stack := stack (heap w a) @ [p]\<rparr>)\<rparr>"

definition invoked :: "addr \<Rightarrow> lid \<Rightarrow> val \<Rightarrow> world \<Rightarrow> world" where
  "invoked a i p w = w\<lparr>events := events w @ [Invoked a i p]\<rparr>"

text \<open>
  \<open>bus_emit d a p\<close> is \<open>a.emit(p)\<close> with \<open>d\<close> call-stack frames left for nested
  emissions: it walks the callbacks registered when it was called, in registration order,
  and calls each one that is still registered. \<open>run_listener\<close> runs a callback's body.
  A nested \<open>emit\<close> runs to its end before the next operation of the body; a throw
  leaves every loop. Only nesting can go on for ever, and it ends in a RangeError. Calling
  a handle that has not been received yet is a call of \<open>undefined\<close>.
\<close>

fun run_listener :: "nat \<Rightarrow> op list \<Rightarrow> val \<Rightarrow> world \<Rightarrow> outcome"
  and emit_each :: "nat \<Rightarrow> addr \<Rightarrow> (lid \<times> listener) list \<Rightarrow> val \<Rightarrow> world \<Rightarrow> outcome"
  and bus_emit :: "nat \<Rightarrow> addr \<Rightarrow> val \<Rightarrow> world \<Rightarrow> outcome"
where
  "run_listener d [] p w = Done w"
| "run_listener d (Throw # ops) p w = Thrown UserError w"
| "run_listener d (Unsub k # ops) p w =
     (if k < length (handles w)
      then (case handles w ! k of
              (a, i) \<Rightarrow> run_listener d ops p (bus_unlisten a i (called a i w)))
      else Thrown TypeError w)"
| "run_listener d (Sub a cb # ops) p w =
     (case bus_listen a cb w of
        (u, w') \<Rightarrow> run_listener d ops p (keep u w'))"
| "run_listener 0 (EmitOn a v # ops) p w = Thrown RangeError w"
| "run_listener (Suc d) (EmitOn a v # ops) p w =
     (case bus_emit d a v w of
        Done w' \<Rightarrow> run_listener (Suc d) ops p w'
      | r \<Rightarrow> r)"
| "run_listener 0 (Forward g name # ops) p w = Thrown RangeError w"
| "run_listener (Suc d) (Forward g name # ops) p w =
     (case bus_emit d g (Tagged name p) w of
        Done w' \<Rightarrow> run_listener (Suc d) ops p w'
      | r \<Rightarrow> r)"
| "emit_each d a [] p w = Done w"
| "emit_each d a ((i, cb) # rest) p w =
     (if registered w a i
      then (case run_listener d cb p (invoked a i p w) of
              Done w' \<Rightarrow> emit_each d a rest p w'
            | r \<Rightarrow> r)
      else emit_each d a rest p w)"
| "bus_emit d a p w = emit_each d a (listeners (heap w a)) p (record_payload a p w)"

declare bus_emit.simps [simp del]

text \<open>The members of a channel object, and \<open>bus.value()\<close> called on the channel.\<close>

definition chan_listen :: "channel \<Rightarrow> listener \<Rightarrow> world \<Rightarrow> handle \<times> world" where
  "chan_listen bus cb w = bus_listen (target bus) cb w"

definition chan_emit :: "nat \<Rightarrow> channel \<Rightarrow> val \<Rightarrow> world \<Rightarrow> outcome" where
  "chan_emit d bus p w = bus_emit d (target bus) p w"


text \<open>
  Modelled from the spec: \<open>createEventBus()\<close> makes a new channel with no listeners; a
  plain bus declares no \<open>value\<close>.
\<close>

definition createEventBus :: "world \<Rightarrow> channel \<times> world" where
  "createEventBus w =
     (\<lparr>target = fresh w, chan_value = None\<rparr>,
      w\<lparr>heap := (heap w)(fresh w := empty_bus), fresh := Suc (fresh w)\<rparr>)"

text \<open>
  Modelled from the spec: a stack-like channel (the \<open>stack()\<close> of the scenario in 8)
  is a stateful channel whose \<open>value()\<close> returns the payloads emitted so far. Its
  accessor is a signal accessor (\<open>Accessor<V>\<close>): a function that does not use the
  object it is called on.
\<close>

definition createEventStack :: "world \<Rightarrow> channel \<times> world" where
  "createEventStack w =
     (\<lparr>target = fresh w, chan_value = Some (\<lambda>this h. Arr (stack (h (fresh w))))\<rparr>,
      w\<lparr>heap := (heap w)(fresh w := empty_bus), fresh := Suc (fresh w)\<rparr>)"

section \<open>The event hub\<close>

text \<open>
  The members of the hub object: a channel spread from \<open>buses\<close>, the \<open>store\<close>
  object, and the three closures with what they capture: \<open>on\<close> and \<open>emit\<close> capture
  \<open>buses\<close>, a reference to the mapping object, and \<open>listen\<close> is \<open>global.listen\<close>
  bound to \<open>global\<close>.
\<close>

datatype property =
    Chan channel
  | Store "accessor obj"
  | On ref
  | Emit ref
  | Listen channel

type_synonym hub = "property obj"

text \<open>
  The argument of \<open>createEventHub\<close>: the mapping object of the caller, or a function
  that is given \<open>createEventBus\<close> and returns one (line 75). \<open>buses\<close> (lines 78 and
  79) is that very object, not a copy of it.
\<close>

datatype defineChannels =
    Channels ref
  | Factory "(world \<Rightarrow> channel \<times> world) \<Rightarrow> world \<Rightarrow> ref \<times> world"

definition resolve :: "defineChannels \<Rightarrow> world \<Rightarrow> ref \<times> world" where
  "resolve defineChannels w =
     (case defineChannels of
        Factory f \<Rightarrow> f createEventBus w
      | Channels m \<Rightarrow> (m, w))"

text \<open>
  The body of the \<open>forEach\<close> (lines 83 and 84). The getter defined on \<open>store\<close> is the
  channel's accessor function itself, taken off the channel; the name is new on
  \<open>store\<close>, the names of one object being distinct. The handle that \<open>bus.listen\<close>
  returns is dropped.
\<close>

definition subscribe :: "channel \<Rightarrow> string \<times> channel \<Rightarrow> accessor obj \<times> world \<Rightarrow> accessor obj \<times> world" where
  "subscribe global = (\<lambda>(name, bus) (store, w).
     ((case chan_value bus of
         Some v \<Rightarrow> store @ [(name, v)]
       | None \<Rightarrow> store),
      snd (chan_listen bus [Forward (target global) name] w)))"

text \<open>
  \<open>Object.entries(buses)\<close> and the spread \<open>...buses\<close> read the own properties that
  the mapping object has when they run.
\<close>

definition createEventHub :: "defineChannels \<Rightarrow> world \<Rightarrow> hub \<times> world" where
  "createEventHub defineChannels w =
     (let (global, w1) = createEventBus w;
          (buses, w2) = resolve defineChannels w1;
          (store, w3) = fold (subscribe global) (objects w2 buses) ([], w2)
      in (object_literal
            (map (\<lambda>(name, bus). (name, Chan bus)) (objects w3 buses) @
             [(''store'', Store store),
              (''on'', On buses),
              (''emit'', Emit buses),
              (''listen'', Listen global)]),
          w3))"

text \<open>
  Calling the members of a hub. \<open>hub_on h e a\<close> is \<open>h.on(e, a)\<close>, which runs
  \<open>buses[e].listen(a)\<close>; \<open>hub_emit d h e a\<close> is \<open>h.emit(e, a)\<close>, which runs
  \<open>buses[e].emit(a)\<close>; both read the mapping object as it is when they are called.
  \<open>hub_listen h a\<close> is \<open>h.listen(a)\<close>. A member access on \<open>undefined\<close> and a call
  of a missing member are both a TypeError.
\<close>

definition hub_on :: "hub \<Rightarrow> string \<Rightarrow> listener \<Rightarrow> world \<Rightarrow> exn + handle \<times> world" where
  "hub_on h e a w =
     (case own h ''on'' of
        Some (On buses) \<Rightarrow>
          (case get_member (objects w buses) e of
             Own bus \<Rightarrow> Inr (chan_listen bus a w)
           | Inherited \<Rightarrow> Inl TypeError
           | Absent \<Rightarrow> Inl TypeError)
      | _ \<Rightarrow> Inl TypeError)"

definition hub_emit :: "nat \<Rightarrow> hub \<Rightarrow> string \<Rightarrow> val \<Rightarrow> world \<Rightarrow> outcome" where
  "hub_emit d h e a w =
     (case own h ''emit'' of
        Some (Emit buses) \<Rightarrow>
          (case get_member (objects w buses) e of
             Own bus \<Rightarrow> chan_emit d bus a w
           | Inherited \<Rightarrow> Thrown TypeError w
           | Absent \<Rightarrow> Thrown TypeError w)
      | _ \<Rightarrow> Thrown TypeError w)"

definition hub_listen :: "hub \<Rightarrow> listener \<Rightarrow> world \<Rightarrow> exn + handle \<times> world" where
  "hub_listen h a w =
     (case own h ''listen'' of
        Some (Listen global) \<Rightarrow> Inr (chan_listen global a w)
      | _ \<Rightarrow> Inl TypeError)"

text \<open>
  \<open>hub_store h\<close> is \<open>h.store\<close>; \<open>store_read st name w\<close> is the read \<open>st.name\<close> of an
  own property in the state \<open>w\<close>: it calls the getter on the object read, which is
  \<open>store\<close>.
\<close>

definition hub_store :: "hub \<Rightarrow> accessor obj" where
  "hub_store h = (case own h ''store'' of Some (Store st) \<Rightarrow> st | _ \<Rightarrow> [])"


text \<open>
  In \<open>createEventHub defineChannels w\<close>: the mapping object that \<open>buses\<close> refers to,
  the state in which the \<open>forEach\<close> starts (\<open>global\<close> is created and the mapping is
  resolved), and the channels that the mapping has then, which are the channels the hub
  is constructed from.
\<close>

definition mapping_of :: "defineChannels \<Rightarrow> world \<Rightarrow> ref" where
  "mapping_of defineChannels w = fst (resolve defineChannels (snd (createEventBus w)))"

definition resolved :: "defineChannels \<Rightarrow> world \<Rightarrow> world" where
  "resolved defineChannels w = snd (resolve defineChannels (snd (createEventBus w)))"

definition channels_of :: "defineChannels \<Rightarrow> world \<Rightarrow> channel obj" where
  "channels_of defineChannels w =
     objects (resolved defineChannels w) (mapping_of defineChannels w)"

text \<open>The own properties that the \<open>forEach\<close> defines on \<open>store\<close>.\<close>

definition getters :: "channel obj \<Rightarrow> accessor obj" where
  "getters buses =
     concat (map (\<lambda>(name, bus). case chan_value bus of Some v \<Rightarrow> [(name, v)] | None \<Rightarrow> []) buses)"

section \<open>Client code and what is observed\<close>

text \<open>
  A sequence of calls of client code: \<open>hub.on(e, a)\<close> and \<open>hub.listen(a)\<close>, whose
  handle the client keeps; \<open>hub.emit(e, p)\<close>; the call of the \<open>k\<close>-th handle received;
  and the write \<open>m[name] = bus\<close> of a property of a mapping object. An exception ends the
  sequence.
\<close>

datatype call =
    CallOn string listener
  | CallListen listener
  | CallEmit string val
  | CallOff nat
  | CallSet ref string channel

fun run_calls :: "nat \<Rightarrow> hub \<Rightarrow> call list \<Rightarrow> world \<Rightarrow> outcome" where
  "run_calls d h [] w = Done w"
| "run_calls d h (CallOn e a # cs) w =
     (case hub_on h e a w of
        Inl x \<Rightarrow> Thrown x w
      | Inr (u, w') \<Rightarrow> run_calls d h cs (keep u w'))"
| "run_calls d h (CallListen a # cs) w =
     (case hub_listen h a w of
        Inl x \<Rightarrow> Thrown x w
      | Inr (u, w') \<Rightarrow> run_calls d h cs (keep u w'))"
| "run_calls d h (CallEmit e p # cs) w =
     (case hub_emit d h e p w of
        Done w' \<Rightarrow> run_calls d h cs w'
      | r \<Rightarrow> r)"
| "run_calls d h (CallOff k # cs) w =
     (if k < length (handles w)
      then (case handles w ! k of
              (a, i) \<Rightarrow> run_calls d h cs (bus_unlisten a i (called a i w)))
      else Thrown TypeError w)"
| "run_calls d h (CallSet m name bus # cs) w = run_calls d h cs (set_channel m name bus w)"



text \<open>
  A history in which no listener is called after its unsubscribe handle was called.
\<close>

fun is_call :: "addr \<Rightarrow> lid \<Rightarrow> event \<Rightarrow> bool" where
  "is_call a i (Invoked b j p) = (b = a \<and> j = i)"
| "is_call a i (HandleCalled b j) = False"

fun never_after_unsub :: "event list \<Rightarrow> bool" where
  "never_after_unsub [] = True"
| "never_after_unsub (HandleCalled a i # es) =
     (list_all (\<lambda>e. \<not> is_call a i e) es \<and> never_after_unsub es)"
| "never_after_unsub (Invoked a i p # es) = never_after_unsub es"

text \<open>
  The states that calls on buses produce: the registrations of a bus are in the order
  of their numbers, all below the bus's next number, and so are the registrations of the
  handles that client code holds.
\<close>

definition well_formed :: "world \<Rightarrow> bool" where
  "well_formed w =
     ((\<forall>x. sorted_wrt (<) (map fst (listeners (heap w x)))) \<and>
      (\<forall>x i. registered w x i \<longrightarrow> i < next_lid (heap w x)) \<and>
      (\<forall>(x, i) \<in> set (handles w). i < next_lid (heap w x)))"

text \<open>
  Such a state whose history fits it: a registration whose handle was called is gone,
  and no listener was called after its handle.
\<close>

definition consistent :: "world \<Rightarrow> bool" where
  "consistent w =
     (well_formed w \<and>
      (\<forall>a i. HandleCalled a i \<in> set (events w) \<longrightarrow>
             \<not> registered w a i \<and> i < next_lid (heap w a)) \<and>
      never_after_unsub (events w))"


text \<open>
  Registration \<open>i\<close> on bus \<open>x\<close> was made by \<open>createEventHub defineChannels w\<close>: its
  number lies between the next numbers of the bus before and after the \<open>forEach\<close>. These
  are the forwarding listeners.
\<close>

definition by_hub :: "defineChannels \<Rightarrow> world \<Rightarrow> addr \<Rightarrow> lid \<Rightarrow> bool" where
  "by_hub defineChannels w x i =
     (next_lid (heap (resolved defineChannels w) x) \<le> i \<and>
      i < next_lid (heap (snd (createEventHub defineChannels w)) x))"


text \<open>
  The state after \<open>g.emit(q)\<close> when the listeners of \<open>g\<close> only observe, and the
  events of the call of a listener of bus \<open>a\<close> that observes or forwards to \<open>g\<close>, whose
  listeners \<open>gl\<close> only observe.
\<close>

definition deliver :: "addr \<Rightarrow> val \<Rightarrow> world \<Rightarrow> world" where
  "deliver g q w =
     (record_payload g q w)\<lparr>events := events w @ map (\<lambda>(j, c). Invoked g j q) (listeners (heap w g))\<rparr>"

fun tag_of :: "listener \<Rightarrow> string list" where
  "tag_of [Forward g n] = [n]"
| "tag_of cb = []"


section \<open>Concrete hubs\<close>

text \<open>The state in which nothing has been created and nothing has happened.\<close>

definition start :: world where
  "start = \<lparr>heap = (\<lambda>a. empty_bus), fresh = 0, objects = (\<lambda>m. []), next_ref = 0,
            handles = [], events = []\<rparr>"

text \<open>
  \<open>createEventHub(bus => ({ a: bus(), b: createEventStack() }))\<close>: a plain bus and a
  stack-like channel, as in the scenario of section 8 of the spec.
\<close>

definition bus_and_stack :: defineChannels where
  "bus_and_stack =
     Factory (\<lambda>bus w. let (a, w1) = bus w; (b, w2) = createEventStack w1
                       in new_object [(''a'', a), (''b'', b)] w2)"

text \<open>\<open>createEventHub(bus => ({ on: bus(), toString: bus() }))\<close>.\<close>

definition on_and_toString :: defineChannels where
  "on_and_toString =
     Factory (\<lambda>bus w. let (a, w1) = bus w; (b, w2) = bus w1
                       in new_object [(''on'', a), (''toString'', b)] w2)"



text \<open>
  A caller that makes two buses and its own mapping object \<open>m = { a: busA }\<close>, then
  calls \<open>createEventHub(m)\<close>. The buses are at the addresses 0 and 1, the mapping
  object has the reference 0.
\<close>

definition caller_state :: world where
  "caller_state =
     (let (busA, w1) = createEventBus start; (busB, w2) = createEventBus w1
      in snd (new_object [(''a'', busA)] w2))"

definition caller_mapping :: defineChannels where
  "caller_mapping = Channels 0"

text \<open>
  Two listeners on channel \<open>a\<close>, the first of which calls the handle of the second (the
  second handle that the client has received), then two emits on \<open>a\<close>.
\<close>

definition unsubscribing :: "call list" where
  "unsubscribing =
     [CallOn ''a'' [Unsub 1], CallOn ''a'' [], CallEmit ''a'' (Num 1), CallEmit ''a'' (Num 2)]"

text \<open>
  Three listeners registered on channel \<open>a\<close> through \<open>hub.on\<close>; the second one
  throws.
\<close>

definition throwing :: "call list" where
  "throwing = [CallOn ''a'' [], CallOn ''a'' [Throw], CallOn ''a'' []]"







section \<open>Objects and the members of a hub\<close>

lemma map_of_put: "map_of (put k v ob) = (map_of ob)(k \<mapsto> v)"
  by (induction ob) (auto simp: fun_eq_iff)

lemma map_of_fold_put:
  "map_of (fold (\<lambda>(k, v). put k v) ps ob) = map_of ob ++ map_of (rev ps)"
proof (induction ps arbitrary: ob)
  case Nil
  show ?case by simp
next
  case (Cons kv ps)
  obtain k v where kv: "kv = (k, v)" by (cases kv)
  show ?case
    by (simp add: Cons.IH kv map_of_put fun_eq_iff map_add_def split: option.splits)
qed

lemma map_of_rev_distinct: "distinct (map fst xs) \<Longrightarrow> map_of (rev xs) = map_of xs"
proof (induction xs)
  case Nil
  show ?case by simp
next
  case (Cons x xs)
  then have "map_of xs (fst x) = None" by (simp add: map_of_eq_None_iff)
  with Cons show ?case
    by (cases x) (auto simp: fun_eq_iff map_add_def split: option.splits)
qed

lemma own_object_literal: "own (object_literal ps) k = map_of (rev ps) k"
  by (simp add: own_def object_literal_def map_of_fold_put)

lemma own_put: "own (put k v ob) k' = (if k' = k then Some v else own ob k')"
  by (simp add: own_def map_of_put)

lemma has_own_map_of: "has_own ob k = (map_of ob k \<noteq> None)"
  by (simp add: has_own_def map_of_eq_None_iff)

lemma has_own_put: "has_own (put k v ob) k' = (k' = k \<or> has_own ob k')"
  by (simp add: has_own_map_of map_of_put)

lemma listeners_listen:
  "listeners (heap (snd (bus_listen a cb w)) x) =
   (if x = a then listeners (heap w a) @ [(next_lid (heap w a), cb)] else listeners (heap w x))"
  by (simp add: bus_listen_def Let_def)

lemma next_lid_listen:
  "next_lid (heap (snd (bus_listen a cb w)) x) =
   (if x = a then Suc (next_lid (heap w a)) else next_lid (heap w x))"
  by (simp add: bus_listen_def Let_def)

lemma fst_listen: "fst (bus_listen a cb w) = (a, next_lid (heap w a))"
  by (simp add: bus_listen_def Let_def)

lemma heap_listen_elsewhere: "x \<noteq> a \<Longrightarrow> heap (snd (bus_listen a cb w)) x = heap w x"
  by (simp add: bus_listen_def Let_def)

lemma others_listen [simp]:
  "events (snd (bus_listen a cb w)) = events w"
  "handles (snd (bus_listen a cb w)) = handles w"
  "objects (snd (bus_listen a cb w)) = objects w"
  by (simp_all add: bus_listen_def Let_def)

lemma subscribe_step:
  "subscribe G (n, b) (st, w) =
   (case chan_value b of Some v \<Rightarrow> st @ [(n, v)] | None \<Rightarrow> st,
    snd (bus_listen (target b) [Forward (target G) n] w))"
  by (simp add: subscribe_def chan_listen_def)

lemma fold_subscribe_step:
  "fold (subscribe G) ((n, b) # bs) (st, w) =
   fold (subscribe G) bs (case chan_value b of Some v \<Rightarrow> st @ [(n, v)] | None \<Rightarrow> st,
                          snd (bus_listen (target b) [Forward (target G) n] w))"
  by (simp only: fold.simps o_apply subscribe_step)

lemma fold_subscribe_store:
  "fst (fold (subscribe G) buses (st, w)) = st @ getters buses"
proof (induction buses arbitrary: st w)
  case Nil
  show ?case by (simp add: getters_def)
next
  case (Cons nb buses)
  obtain n b where nb: "nb = (n, b)" by (cases nb)
  show ?case
    unfolding nb fold_subscribe_step Cons.IH
    by (cases "chan_value b") (simp_all add: getters_def)
qed

lemma fold_subscribe_others:
  "objects (snd (fold (subscribe G) bs (st, w))) = objects w"
  "events (snd (fold (subscribe G) bs (st, w))) = events w"
  "handles (snd (fold (subscribe G) bs (st, w))) = handles w"
proof (induction bs arbitrary: st w)
  case Nil
  {
    case 1 show ?case by simp
  next
    case 2 show ?case by simp
  next
    case 3 show ?case by simp
  }
next
  case (Cons nb bs)
  obtain n b where nb: "nb = (n, b)" by (cases nb)
  {
    case 1 show ?case unfolding nb fold_subscribe_step Cons.IH by simp
  next
    case 2 show ?case unfolding nb fold_subscribe_step Cons.IH by simp
  next
    case 3 show ?case unfolding nb fold_subscribe_step Cons.IH by simp
  }
qed

lemma createEventHub_world:
  "snd (createEventHub d w) =
   snd (fold (subscribe (fst (createEventBus w))) (channels_of d w) ([], resolved d w))"
  by (simp add: createEventHub_def channels_of_def resolved_def mapping_of_def case_prod_beta)

lemma objects_createEventHub:
  "objects (snd (createEventHub d w)) = objects (resolved d w)"
  by (simp add: createEventHub_world fold_subscribe_others)

lemma createEventHub_hub:
  "fst (createEventHub d w) =
   object_literal
     (map (\<lambda>(name, bus). (name, Chan bus)) (channels_of d w) @
      [(''store'', Store (getters (channels_of d w))),
       (''on'', On (mapping_of d w)),
       (''emit'', Emit (mapping_of d w)),
       (''listen'', Listen (fst (createEventBus w)))])"
  by (simp add: createEventHub_def channels_of_def resolved_def mapping_of_def case_prod_beta
      fold_subscribe_store fold_subscribe_others)

lemma createEventHub_members:
  "own (fst (createEventHub d w)) ''on'' = Some (On (mapping_of d w))"
  "own (fst (createEventHub d w)) ''emit'' = Some (Emit (mapping_of d w))"
  "own (fst (createEventHub d w)) ''listen'' = Some (Listen (fst (createEventBus w)))"
  "own (fst (createEventHub d w)) ''store'' = Some (Store (getters (channels_of d w)))"
  by (simp_all add: createEventHub_hub own_object_literal)

lemma keys_getters: "fst ` set (getters buses) \<subseteq> fst ` set buses"
  by (auto simp: getters_def split: option.splits) force

lemma map_of_getters:
  "distinct (map fst buses) \<Longrightarrow> map_of buses name = Some bus \<Longrightarrow>
   map_of (getters buses) name = chan_value bus"
proof (induction buses)
  case Nil
  then show ?case by simp
next
  case (Cons nb buses)
  obtain n b where nb: "nb = (n, b)" by (cases nb)
  show ?case
  proof (cases "n = name")
    case True
    with Cons.prems nb keys_getters[of buses] have "map_of (getters buses) name = None"
      by (auto simp: map_of_eq_None_iff)
    with True Cons.prems nb show ?thesis
      by (cases "chan_value b") (auto simp: getters_def)
  next
    case False
    with Cons nb show ?thesis
      by (cases "chan_value b") (auto simp: getters_def)
  qed
qed

lemma hub_store_createEventHub:
  "hub_store (fst (createEventHub d w)) = getters (channels_of d w)"
  by (simp add: hub_store_def createEventHub_members)

lemmas run_hub =
  createEventHub_def resolve_def createEventBus_def createEventStack_def subscribe_def
  chan_listen_def bus_listen_def empty_bus_def start_def channels_of_def resolved_def
  mapping_of_def new_object_def object_literal_def own_def has_own_def Let_def

lemmas run_emit = bus_emit.simps hub_on_def hub_emit_def hub_listen_def get_member_def
  chan_emit_def record_payload_def registered_def invoked_def bus_unlisten_def keep_def
  called_def set_channel_def


section \<open>The store\<close>




text \<open>
  C3, as amended. For a channel name of the mapping, \<open>store\<close> has an own property of
  that name if and only if the channel declared a \<open>value\<close> accessor. The \<open>in\<close> test
  also sees the members that \<open>store\<close>, an object literal, inherits: it is true if and
  only if the channel declared a \<open>value\<close> accessor or the name is one of
  \<open>Object.prototype\<close>.
\<close>

theorem store_key_iff_value:
  assumes "createEventHub defineChannels w = (hub, w1)"
    and "distinct (map fst (channels_of defineChannels w))"
    and "own (channels_of defineChannels w) name = Some bus"
  shows "(has_own (hub_store hub) name \<longleftrightarrow> chan_value bus \<noteq> None) \<and>
         (is_in name (hub_store hub) \<longleftrightarrow>
            chan_value bus \<noteq> None \<or> name \<in> set object_prototype)"
proof -
  have "hub = fst (createEventHub defineChannels w)" using assms(1) by simp
  then have st: "hub_store hub = getters (channels_of defineChannels w)"
    by (simp add: hub_store_createEventHub)
  have "map_of (getters (channels_of defineChannels w)) name = chan_value bus"
    using map_of_getters[OF assms(2)] assms(3) by (simp add: own_def)
  then have "has_own (hub_store hub) name \<longleftrightarrow> chan_value bus \<noteq> None"
    unfolding st by (simp add: has_own_map_of)
  then show ?thesis by (simp add: is_in_def)
qed

theorem store_key_iff_value_witness:
  "\<not> has_own (hub_store (fst (createEventHub bus_and_stack start))) ''a'' \<and>
   \<not> is_in ''a'' (hub_store (fst (createEventHub bus_and_stack start))) \<and>
   has_own (hub_store (fst (createEventHub bus_and_stack start))) ''b''"
proof -
  let ?h = "fst (createEventHub bus_and_stack start)"
  let ?w = "snd (createEventHub bus_and_stack start)"
  let ?a = "\<lparr>target = Suc 0, chan_value = None\<rparr>"
  let ?b = "\<lparr>target = Suc (Suc 0), chan_value = Some (\<lambda>this h. Arr (stack (h (Suc (Suc 0)))))\<rparr>"
  have a: "(has_own (hub_store ?h) ''a'' \<longleftrightarrow> chan_value ?a \<noteq> None) \<and>
         (is_in ''a'' (hub_store ?h) \<longleftrightarrow> chan_value ?a \<noteq> None \<or> ''a'' \<in> set object_prototype)"
    by (rule store_key_iff_value[of bus_and_stack start ?h ?w])
       (simp_all add: run_hub bus_and_stack_def)
  have b: "(has_own (hub_store ?h) ''b'' \<longleftrightarrow> chan_value ?b \<noteq> None) \<and>
         (is_in ''b'' (hub_store ?h) \<longleftrightarrow> chan_value ?b \<noteq> None \<or> ''b'' \<in> set object_prototype)"
    by (rule store_key_iff_value[of bus_and_stack start ?h ?w])
       (simp_all add: run_hub bus_and_stack_def)
  from a b show ?thesis by (simp add: object_prototype_def)
qed

text \<open>
  C3 as the spec states it fails for a channel named after a member of \<open>Object.prototype\<close>:
  the channel \<open>toString\<close> declares no \<open>value\<close>, and \<open>"toString" in store\<close> is true.
\<close>

theorem store_in_counterexample:
  "own (channels_of on_and_toString start) ''toString''
     = Some \<lparr>target = Suc (Suc 0), chan_value = None\<rparr> \<and>
   is_in ''toString'' (hub_store (fst (createEventHub on_and_toString start)))"
  by (simp add: run_hub on_and_toString_def is_in_def object_prototype_def)


section \<open>The members of the hub\<close>

text \<open>
  C4, as amended. For every channel name of the mapping other than \<open>store\<close>, \<open>on\<close>,
  \<open>emit\<close> and \<open>listen\<close>, the hub's property of that name is the original channel
  object, with its \<open>listen\<close>, \<open>emit\<close> and optional \<open>value\<close>.
\<close>

theorem hub_spreads_channels:
  assumes "createEventHub defineChannels w = (hub, w1)"
    and "distinct (map fst (channels_of defineChannels w))"
    and "own (channels_of defineChannels w) k = Some bus"
    and "k \<notin> {''store'', ''on'', ''emit'', ''listen''}"
  shows "own hub k = Some (Chan bus)"
proof -
  let ?ps = "map (\<lambda>(name, bus). (name, Chan bus)) (channels_of defineChannels w)"
  have h: "hub = fst (createEventHub defineChannels w)" using assms(1) by simp
  have d: "distinct (map fst ?ps)" using assms(2) by (simp add: case_prod_beta comp_def)
  have "map_of ?ps k = Some (Chan bus)"
    using assms(3) by (auto simp: own_def map_of_map case_prod_beta comp_def)
  then have "map_of (rev ?ps) k = Some (Chan bus)"
    using d by (simp add: map_of_rev_distinct)
  then show ?thesis using assms(4)
    by (simp add: h createEventHub_hub own_object_literal)
qed

theorem hub_spreads_channels_witness:
  "own (fst (createEventHub on_and_toString start)) ''toString''
     = Some (Chan \<lparr>target = Suc (Suc 0), chan_value = None\<rparr>)"
  by (rule hub_spreads_channels[of on_and_toString start _
        "snd (createEventHub on_and_toString start)"])
     (simp_all add: run_hub on_and_toString_def)

text \<open>
  C4 as the spec states it fails for a channel named \<open>on\<close>: the hub's \<open>on\<close> is the hub's
  own function, which comes after the spread in the object literal.
\<close>

theorem hub_spread_counterexample:
  "own (channels_of on_and_toString start) ''on''
     = Some \<lparr>target = Suc 0, chan_value = None\<rparr> \<and>
   own (fst (createEventHub on_and_toString start)) ''on''
     \<noteq> Some (Chan \<lparr>target = Suc 0, chan_value = None\<rparr>)"
  by (simp add: run_hub on_and_toString_def)




text \<open>
  C10, as amended. \<open>hub.on(name, listener)\<close> and \<open>hub.emit(name, payload)\<close> dispatch
  through the mapping object captured at construction, read when they are called, not
  through the hub object's own properties: they are the \<open>listen\<close> and the \<open>emit\<close> of
  the channel that the mapping object then holds under that name, also for a name that
  the hub's own members shadow. When construction returns the mapping object holds the
  channels the hub was constructed from, so until the caller writes to it they reach the
  original channel of every name.
\<close>

theorem hub_dispatches_through_buses:
  assumes "createEventHub defineChannels w = (hub, w1)"
    and "own (objects w' (mapping_of defineChannels w)) name = Some bus"
  shows "hub_on hub name a w' = Inr (chan_listen bus a w') \<and>
         hub_emit d hub name p w' = chan_emit d bus p w' \<and>
         objects w1 (mapping_of defineChannels w) = channels_of defineChannels w"
proof -
  have h: "hub = fst (createEventHub defineChannels w)"
    and w1: "w1 = snd (createEventHub defineChannels w)" using assms(1) by simp_all
  show ?thesis using assms(2)
    by (simp add: h w1 hub_on_def hub_emit_def createEventHub_members get_member_def
        objects_createEventHub channels_of_def)
qed

theorem hub_dispatches_through_buses_witness:
  "hub_on (fst (createEventHub on_and_toString start)) ''on'' []
     (snd (createEventHub on_and_toString start))
     = Inr (chan_listen \<lparr>target = Suc 0, chan_value = None\<rparr> []
         (snd (createEventHub on_and_toString start))) \<and>
   hub_emit (Suc 0) (fst (createEventHub on_and_toString start)) ''on'' (Num 1)
     (snd (createEventHub on_and_toString start))
     = chan_emit (Suc 0) \<lparr>target = Suc 0, chan_value = None\<rparr> (Num 1)
         (snd (createEventHub on_and_toString start)) \<and>
   objects (snd (createEventHub on_and_toString start)) (mapping_of on_and_toString start)
     = channels_of on_and_toString start"
  by (rule hub_dispatches_through_buses[of on_and_toString start _
        "snd (createEventHub on_and_toString start)"])
     (simp_all add: run_hub on_and_toString_def)

text \<open>
  C10 as the spec states it fails once the caller has replaced a property of its mapping
  object: after \<open>m.a = busB\<close>, \<open>hub.on("a", ...)\<close> registers on \<open>busB\<close> (the bus at
  address 1) and not on the original channel \<open>a\<close> (the bus at address 0).
\<close>

theorem hub_dispatch_counterexample:
  "own (channels_of caller_mapping caller_state) ''a''
     = Some \<lparr>target = 0, chan_value = None\<rparr> \<and>
   hub_on (fst (createEventHub caller_mapping caller_state)) ''a'' []
     (set_channel 0 ''a'' \<lparr>target = Suc 0, chan_value = None\<rparr>
        (snd (createEventHub caller_mapping caller_state)))
     = Inr (chan_listen \<lparr>target = Suc 0, chan_value = None\<rparr> []
        (set_channel 0 ''a'' \<lparr>target = Suc 0, chan_value = None\<rparr>
           (snd (createEventHub caller_mapping caller_state)))) \<and>
   map (\<lambda>x. map snd (listeners (heap (snd (chan_listen \<lparr>target = Suc 0, chan_value = None\<rparr> []
        (set_channel 0 ''a'' \<lparr>target = Suc 0, chan_value = None\<rparr>
           (snd (createEventHub caller_mapping caller_state))))) x))) [0, Suc 0]
     = [[[Forward (Suc (Suc 0)) ''a'']], [[]]]"
  by (simp add: run_hub run_emit caller_mapping_def caller_state_def)


section \<open>Buses: the steps of a run\<close>

lemma invoked_simps [simp]:
  "heap (invoked a i p w) = heap w"
  "handles (invoked a i p w) = handles w"
  "objects (invoked a i p w) = objects w"
  "events (invoked a i p w) = events w @ [Invoked a i p]"
  "registered (invoked a i p w) b j = registered w b j"
  by (simp_all add: invoked_def registered_def)

lemma called_simps [simp]:
  "heap (called a i w) = heap w"
  "handles (called a i w) = handles w"
  "objects (called a i w) = objects w"
  "events (called a i w) = events w @ [HandleCalled a i]"
  "registered (called a i w) b j = registered w b j"
  by (simp_all add: called_def registered_def)

lemma record_payload_simps [simp]:
  "listeners (heap (record_payload a p w) b) = listeners (heap w b)"
  "next_lid (heap (record_payload a p w) b) = next_lid (heap w b)"
  "handles (record_payload a p w) = handles w"
  "objects (record_payload a p w) = objects w"
  "events (record_payload a p w) = events w"
  "registered (record_payload a p w) b j = registered w b j"
  by (simp_all add: record_payload_def registered_def)

lemma keep_simps [simp]:
  "heap (keep u w) = heap w"
  "handles (keep u w) = handles w @ [u]"
  "objects (keep u w) = objects w"
  "events (keep u w) = events w"
  "registered (keep u w) b j = registered w b j"
  by (simp_all add: keep_def registered_def)

lemma set_channel_simps [simp]:
  "heap (set_channel m e bus w) = heap w"
  "handles (set_channel m e bus w) = handles w"
  "events (set_channel m e bus w) = events w"
  "registered (set_channel m e bus w) b j = registered w b j"
  by (simp_all add: set_channel_def registered_def)

lemma unlisten_simps [simp]:
  "next_lid (heap (bus_unlisten a i w) b) = next_lid (heap w b)"
  "handles (bus_unlisten a i w) = handles w"
  "objects (bus_unlisten a i w) = objects w"
  "events (bus_unlisten a i w) = events w"
  by (simp_all add: bus_unlisten_def)

lemma listeners_unlisten:
  "listeners (heap (bus_unlisten a i w) b) =
   (if b = a then filter (\<lambda>(j, cb). j \<noteq> i) (listeners (heap w a)) else listeners (heap w b))"
  by (simp add: bus_unlisten_def)

lemma registered_unlisten:
  "registered (bus_unlisten a i w) b j = (registered w b j \<and> \<not> (b = a \<and> j = i))"
  by (auto simp: registered_def listeners_unlisten)

lemma registered_listen:
  "registered (snd (bus_listen a cb w)) b j =
   (registered w b j \<or> (b = a \<and> j = next_lid (heap w a)))"
  by (auto simp: registered_def listeners_listen)

lemma hub_on_listen:
  assumes "hub_on h e a w = Inr (u, w')"
  shows "\<exists>t. u = fst (bus_listen t a w) \<and> w' = snd (bus_listen t a w)"
proof -
  from assms obtain bus where "chan_listen bus a w = (u, w')"
    by (auto simp: hub_on_def split: option.splits property.splits member.splits)
  then have "u = fst (bus_listen (target bus) a w) \<and> w' = snd (bus_listen (target bus) a w)"
    by (simp add: chan_listen_def)
  then show ?thesis ..
qed

lemma hub_listen_listen:
  assumes "hub_listen h a w = Inr (u, w')"
  shows "\<exists>t. u = fst (bus_listen t a w) \<and> w' = snd (bus_listen t a w)"
proof -
  from assms obtain bus where "chan_listen bus a w = (u, w')"
    by (auto simp: hub_listen_def split: option.splits property.splits)
  then have "u = fst (bus_listen (target bus) a w) \<and> w' = snd (bus_listen (target bus) a w)"
    by (simp add: chan_listen_def)
  then show ?thesis ..
qed

text \<open>
  A property of states that every step of a run keeps is kept by the calls of listeners,
  by emissions and by sequences of client calls.
\<close>

lemma emit_preserves:
  assumes inv: "\<And>a i p w. P w \<Longrightarrow> registered w a i \<Longrightarrow> P (invoked a i p w)"
    and unsub: "\<And>a i w. P w \<Longrightarrow> (a, i) \<in> set (handles w) \<Longrightarrow> P (bus_unlisten a i (called a i w))"
    and sub: "\<And>a cb w. P w \<Longrightarrow> P (keep (fst (bus_listen a cb w)) (snd (bus_listen a cb w)))"
    and rec: "\<And>a p w. P w \<Longrightarrow> P (record_payload a p w)"
  shows "P w \<Longrightarrow> P (state_of (run_listener d ops p w))"
    and "P w \<Longrightarrow> P (state_of (emit_each d a ls p w))"
    and "P w \<Longrightarrow> P (state_of (bus_emit d a p w))"
proof (induction d ops p w and d a ls p w and d a p w rule: run_listener_emit_each_bus_emit.induct)
  case (3 d k ops p w)
  show ?case
  proof (cases "k < length (handles w)")
    case True
    obtain a i where ai: "handles w ! k = (a, i)" by (cases "handles w ! k")
    with True have "(a, i) \<in> set (handles w)" by (metis nth_mem)
    with 3(2) have "P (bus_unlisten a i (called a i w))" by (rule unsub)
    with 3(1)[OF True ai[symmetric]] True ai show ?thesis by simp
  next
    case False
    with 3(2) show ?thesis by simp
  qed
next
  case (4 d a cb ops p w)
  obtain u w' where l: "bus_listen a cb w = (u, w')" by (cases "bus_listen a cb w")
  from sub[OF 4(2), of a cb] l have "P (keep u w')" by simp
  with 4(1)[OF l[symmetric]] l show ?case by simp
next
  case (6 d a v ops p w)
  then show ?case by (cases "bus_emit d a v w") simp_all
next
  case (8 d g name ops p w)
  then show ?case by (cases "bus_emit d g (Tagged name p) w") simp_all
next
  case (10 d a i cb rest p w)
  show ?case
  proof (cases "registered w a i")
    case True
    with 10 show ?thesis
      by (cases "run_listener d cb p (invoked a i p w)") (simp_all add: inv)
  next
    case False
    with 10 show ?thesis by simp
  qed
next
  case (11 d a p w)
  then show ?case by (simp add: bus_emit.simps rec)
qed simp_all

lemma calls_preserve:
  assumes inv: "\<And>a i p w. P w \<Longrightarrow> registered w a i \<Longrightarrow> P (invoked a i p w)"
    and unsub: "\<And>a i w. P w \<Longrightarrow> (a, i) \<in> set (handles w) \<Longrightarrow> P (bus_unlisten a i (called a i w))"
    and sub: "\<And>a cb w. P w \<Longrightarrow> P (keep (fst (bus_listen a cb w)) (snd (bus_listen a cb w)))"
    and rec: "\<And>a p w. P w \<Longrightarrow> P (record_payload a p w)"
    and set: "\<And>m e b w. P w \<Longrightarrow> P (set_channel m e b w)"
  shows "P w \<Longrightarrow> P (state_of (run_calls d h cs w))"
proof (induction d h cs w rule: run_calls.induct)
  case (1 d h w)
  then show ?case by simp
next
  case (2 d h e a cs w)
  show ?case
  proof (cases "hub_on h e a w")
    case (Inl err)
    with 2 show ?thesis by simp
  next
    case (Inr r)
    obtain u w2 where r: "r = (u, w2)" by (cases r)
    from hub_on_listen[of h e a w u w2] Inr r obtain t where
      "u = fst (bus_listen t a w)" "w2 = snd (bus_listen t a w)" by auto
    with sub[OF 2(2), of t a] have "P (keep u w2)" by simp
    with 2(1)[OF Inr r[symmetric]] Inr r show ?thesis by simp
  qed
next
  case (3 d h a cs w)
  show ?case
  proof (cases "hub_listen h a w")
    case (Inl err)
    with 3 show ?thesis by simp
  next
    case (Inr r)
    obtain u w2 where r: "r = (u, w2)" by (cases r)
    from hub_listen_listen[of h a w u w2] Inr r obtain t where
      "u = fst (bus_listen t a w)" "w2 = snd (bus_listen t a w)" by auto
    with sub[OF 3(2), of t a] have "P (keep u w2)" by simp
    with 3(1)[OF Inr r[symmetric]] Inr r show ?thesis by simp
  qed
next
  case (4 d h e p cs w)
  have "P (state_of (hub_emit d h e p w))"
    using 4(2) emit_preserves(3)[of P, OF inv unsub sub rec]
    by (auto simp: hub_emit_def chan_emit_def split: option.splits property.splits member.splits)
  with 4 show ?case by (cases "hub_emit d h e p w") simp_all
next
  case (5 d h k cs w)
  show ?case
  proof (cases "k < length (handles w)")
    case True
    obtain a i where ai: "handles w ! k = (a, i)" by (cases "handles w ! k")
    with True have "(a, i) \<in> set (handles w)" by (metis nth_mem)
    with 5(2) have "P (bus_unlisten a i (called a i w))" by (rule unsub)
    with 5(1)[OF True ai[symmetric]] True ai show ?thesis by simp
  next
    case False
    with 5(2) show ?thesis by simp
  qed
next
  case (6 d h m name bus cs w)
  then show ?case by (simp add: set)
qed


section \<open>Well-formed states and their histories\<close>

lemma ids_unlisten:
  "map fst (filter (\<lambda>(j, cb). j \<noteq> i) ls) = filter (\<lambda>j. j \<noteq> i) (map fst ls)"
  by (induction ls) auto

lemma well_formed_unlisten:
  assumes "well_formed w"
  shows "well_formed (bus_unlisten a i (called a i w))"
proof -
  have s: "sorted_wrt (<) (map fst (listeners (heap w x)))" for x
    using assms by (simp add: well_formed_def)
  have "sorted_wrt (<) (map fst (listeners (heap (bus_unlisten a i (called a i w)) x)))" for x
    using s[of x] s[of a] by (simp add: listeners_unlisten ids_unlisten sorted_wrt_filter)
  moreover have "j < next_lid (heap (bus_unlisten a i (called a i w)) x)"
    if "registered (bus_unlisten a i (called a i w)) x j" for x j
    using assms that by (simp add: well_formed_def registered_unlisten)
  moreover have "\<forall>(x, j) \<in> set (handles (bus_unlisten a i (called a i w))).
                   j < next_lid (heap (bus_unlisten a i (called a i w)) x)"
    using assms by (simp add: well_formed_def)
  ultimately show ?thesis unfolding well_formed_def by blast
qed

lemma well_formed_listen:
  assumes "well_formed w"
  shows "well_formed (keep (fst (bus_listen a cb w)) (snd (bus_listen a cb w)))"
proof -
  let ?w' = "keep (fst (bus_listen a cb w)) (snd (bus_listen a cb w))"
  have s: "sorted_wrt (<) (map fst (listeners (heap w x)))" for x
    using assms by (simp add: well_formed_def)
  have r: "j < next_lid (heap w x)" if "registered w x j" for x j
    using assms that by (simp add: well_formed_def)
  have h: "j < next_lid (heap w x)" if "(x, j) \<in> set (handles w)" for x j
    using assms that by (auto simp: well_formed_def)
  have "sorted_wrt (<) (map fst (listeners (heap ?w' x)))" for x
  proof (cases "x = a")
    case True
    have "\<forall>j \<in> set (map fst (listeners (heap w a))). j < next_lid (heap w a)"
      using r[of a] by (simp add: registered_def)
    with s[of a] True show ?thesis
      by (simp add: listeners_listen sorted_wrt_append)
  next
    case False
    with s[of x] show ?thesis by (simp add: listeners_listen)
  qed
  moreover have "j < next_lid (heap ?w' x)" if "registered ?w' x j" for x j
    using that r[of x j] by (auto simp: registered_listen next_lid_listen less_Suc_eq)
  moreover have "\<forall>(x, j) \<in> set (handles ?w'). j < next_lid (heap ?w' x)"
    using h by (auto simp: fst_listen next_lid_listen less_Suc_eq)
  ultimately show ?thesis unfolding well_formed_def by blast
qed

lemma well_formed_steps:
  "well_formed w \<Longrightarrow> well_formed (invoked a i p w)"
  "well_formed w \<Longrightarrow> well_formed (record_payload a p w)"
  "well_formed w \<Longrightarrow> well_formed (set_channel m e b w)"
  by (simp_all add: well_formed_def)


lemma never_after_unsub_append_call:
  "never_after_unsub es \<Longrightarrow> HandleCalled a i \<notin> set es \<Longrightarrow> never_after_unsub (es @ [Invoked a i p])"
  by (induction es rule: never_after_unsub.induct) auto

lemma never_after_unsub_append_unsub:
  "never_after_unsub es \<Longrightarrow> never_after_unsub (es @ [HandleCalled a i])"
  by (induction es rule: never_after_unsub.induct) auto

lemma consistent_invoked:
  assumes "consistent w" and "registered w a i"
  shows "consistent (invoked a i p w)"
proof -
  from assms have "HandleCalled a i \<notin> set (events w)"
    by (auto simp: consistent_def)
  with assms(1) show ?thesis
    by (simp add: consistent_def never_after_unsub_append_call well_formed_steps)
qed

lemma consistent_unlisten:
  assumes "consistent w" and "(a, i) \<in> set (handles w)"
  shows "consistent (bus_unlisten a i (called a i w))"
proof -
  have "i < next_lid (heap w a)"
    using assms by (auto simp: consistent_def well_formed_def)
  with assms(1) show ?thesis
    by (auto simp: consistent_def well_formed_unlisten registered_unlisten
        never_after_unsub_append_unsub)
qed

lemma consistent_listen:
  assumes "consistent w"
  shows "consistent (keep (fst (bus_listen a cb w)) (snd (bus_listen a cb w)))"
proof -
  have c: "\<not> registered w b j \<and> j < next_lid (heap w b)"
    if "HandleCalled b j \<in> set (events w)" for b j
    using assms that by (simp add: consistent_def)
  have "\<not> registered (snd (bus_listen a cb w)) b j \<and> j < next_lid (heap (snd (bus_listen a cb w)) b)"
    if "HandleCalled b j \<in> set (events w)" for b j
    using c[OF that] by (auto simp: registered_listen next_lid_listen)
  with assms show ?thesis
    by (simp add: consistent_def well_formed_listen)
qed

lemma consistent_steps:
  "consistent w \<Longrightarrow> consistent (record_payload a p w)"
  "consistent w \<Longrightarrow> consistent (set_channel m e b w)"
  by (simp_all add: consistent_def well_formed_steps)

text \<open>
  C6. For every sequence of \<open>hub.on\<close> and \<open>hub.listen\<close> registrations, calls of the
  unsubscribe handles they returned, emits and writes to the mapping, run from a state
  that calls on buses have produced, the history has no call of a listener after the call
  of its unsubscribe handle. The history notes a handle call where the handle is called,
  in client code or inside a listener during an emission, and the listeners may
  themselves emit, subscribe, unsubscribe and throw.
\<close>

theorem unsubscribed_never_invoked:
  assumes "consistent w"
  shows "never_after_unsub (events (state_of (run_calls d hub calls w)))"
proof -
  have "consistent (state_of (run_calls d hub calls w))"
    using assms
    by (rule calls_preserve[of consistent, rotated -1])
       (simp_all add: consistent_invoked consistent_unlisten consistent_listen consistent_steps)
  then show ?thesis by (simp add: consistent_def)
qed


theorem unsubscribed_never_invoked_witness:
  "consistent (snd (createEventHub bus_and_stack start)) \<and>
   never_after_unsub (events (state_of (run_calls 5 (fst (createEventHub bus_and_stack start))
      unsubscribing (snd (createEventHub bus_and_stack start))))) \<and>
   events (state_of (run_calls 5 (fst (createEventHub bus_and_stack start))
      unsubscribing (snd (createEventHub bus_and_stack start)))) =
     [Invoked 1 0 (Num 1), Invoked 1 1 (Num 1), HandleCalled 1 2,
      Invoked 1 0 (Num 2), Invoked 1 1 (Num 2), HandleCalled 1 2]"
proof -
  let ?h = "fst (createEventHub bus_and_stack start)"
  let ?w = "snd (createEventHub bus_and_stack start)"
  have c: "consistent ?w"
    by (simp add: consistent_def well_formed_def registered_def run_hub bus_and_stack_def)
  have n: "never_after_unsub (events (state_of (run_calls 5 ?h unsubscribing ?w)))"
    by (rule unsubscribed_never_invoked[OF c])
  have e: "events (state_of (run_calls 5 ?h unsubscribing ?w)) =
     [Invoked 1 0 (Num 1), Invoked 1 1 (Num 1), HandleCalled 1 2,
      Invoked 1 0 (Num 2), Invoked 1 1 (Num 2), HandleCalled 1 2]"
    by (simp add: run_hub run_emit bus_and_stack_def unsubscribing_def eval_nat_numeral)
  from c n e show ?thesis by simp
qed


section \<open>Exceptions\<close>

lemma emit_each_append:
  "emit_each d a (xs @ ys) p w =
   (case emit_each d a xs p w of Done w' \<Rightarrow> emit_each d a ys p w' | Thrown e w' \<Rightarrow> Thrown e w')"
proof (induction xs arbitrary: w)
  case Nil
  show ?case by simp
next
  case (Cons x xs)
  obtain i cb where x: "x = (i, cb)" by (cases x)
  show ?case
    by (cases "run_listener d cb p (invoked a i p w)") (simp_all add: x Cons.IH)
qed

text \<open>
  C9. When the listeners registered before listener \<open>i\<close> on a channel have returned
  normally and the call of \<open>i\<close> throws, \<open>hub.emit\<close> throws the same exception in
  the state that \<open>i\<close> left: the hub catches nothing and no listener registered after
  \<open>i\<close> runs. The channel is the one that the mapping object holds under the name when
  \<open>hub.emit\<close> is called.
\<close>

theorem throw_leaves_emit:
  assumes "createEventHub defineChannels w0 = (hub, w1)"
    and "own (objects w (mapping_of defineChannels w0)) name = Some bus"
    and "listeners (heap w (target bus)) = before @ (i, cb) # after"
    and "emit_each d (target bus) before p (record_payload (target bus) p w) = Done w'"
    and "registered w' (target bus) i"
    and "run_listener d cb p (invoked (target bus) i p w') = Thrown x w''"
  shows "hub_emit d hub name p w = Thrown x w''"
proof -
  have h: "hub = fst (createEventHub defineChannels w0)" using assms(1) by simp
  have "hub_emit d hub name p w = bus_emit d (target bus) p w"
    using assms(2) by (simp add: h hub_emit_def createEventHub_members get_member_def chan_emit_def)
  also have "\<dots> = Thrown x w''"
    using assms(3-6) by (simp add: bus_emit.simps emit_each_append)
  finally show ?thesis .
qed

theorem throw_leaves_emit_witness:
  "\<exists>w''. hub_emit (Suc 0) (fst (createEventHub bus_and_stack start)) ''a'' (Num 1)
           (state_of (run_calls 0 (fst (createEventHub bus_and_stack start)) throwing
              (snd (createEventHub bus_and_stack start)))) = Thrown UserError w'' \<and>
         events w'' = [Invoked (Suc 0) 0 (Num 1), Invoked (Suc 0) (Suc 0) (Num 1),
                       Invoked (Suc 0) (Suc (Suc 0)) (Num 1)]"
proof -
  define h where "h = fst (createEventHub bus_and_stack start)"
  define w1 where "w1 = snd (createEventHub bus_and_stack start)"
  define w where "w = state_of (run_calls 0 h throwing w1)"
  define before where "before = [(0::nat, [Forward 0 ''a'']), (Suc 0, [])]"
  define w' where
    "w' = state_of (emit_each (Suc 0) (Suc 0) before (Num 1) (record_payload (Suc 0) (Num 1) w))"
  note defs = h_def w1_def w_def before_def w'_def throwing_def bus_and_stack_def
  have 1: "createEventHub bus_and_stack start = (h, w1)"
    by (simp add: h_def w1_def)
  have 2: "own (objects w (mapping_of bus_and_stack start)) ''a''
             = Some \<lparr>target = Suc 0, chan_value = None\<rparr>"
    by (simp add: defs run_hub run_emit)
  have 3: "listeners (heap w (Suc 0)) = before @ (Suc (Suc 0), [Throw]) # [(Suc (Suc (Suc 0)), [])]"
    by (simp add: defs run_hub run_emit)
  have 4: "emit_each (Suc 0) (Suc 0) before (Num 1) (record_payload (Suc 0) (Num 1) w) = Done w'"
    by (simp add: defs run_hub run_emit)
  have 5: "registered w' (Suc 0) (Suc (Suc 0))"
    by (simp add: defs run_hub run_emit)
  have 6: "events w' = [Invoked (Suc 0) 0 (Num 1), Invoked (Suc 0) (Suc 0) (Num 1)]"
    by (simp add: defs run_hub run_emit)
  have "hub_emit (Suc 0) h ''a'' (Num 1) w
          = Thrown UserError (invoked (Suc 0) (Suc (Suc 0)) (Num 1) w')"
    by (rule throw_leaves_emit[where bus = "\<lparr>target = Suc 0, chan_value = None\<rparr>"
          and before = before and after = "[(Suc (Suc (Suc 0)), [])]" and cb = "[Throw]"
          and w' = w', OF 1 2])
       (simp_all add: 3 4 5)
  with 6 show ?thesis
    unfolding h_def w1_def w_def by (intro exI conjI) (assumption, simp)
qed


section \<open>From an emit to the listeners of the hub\<close>



lemma listeners_deliver [simp]: "listeners (heap (deliver g q w) x) = listeners (heap w x)"
  by (simp add: deliver_def)

lemma registered_deliver [simp]: "registered (deliver g q w) x i = registered w x i"
  by (simp add: registered_def)









lemma target_createEventBus [simp]: "target (fst (createEventBus w)) = fresh w"
  by (simp add: createEventBus_def)

lemma tags_observers: "list_all (\<lambda>cb. cb = []) cbs \<Longrightarrow> concat (map tag_of cbs) = []"
  by (induction cbs) auto








lemma run_forwarder:
  "run_listener (Suc d) [Forward g name] p w = bus_emit d g (Tagged name p) w"
  by (cases "bus_emit d g (Tagged name p) w") simp_all


section \<open>Construction\<close>

lemma zip_upt_Cons:
  "zip [n..<Suc (n + k)] (x # xs) = (n, x) # zip [Suc n..<Suc (n + k)] xs"
  by (simp add: upt_conv_Cons del: upt_Suc)

lemma fold_subscribe_listeners:
  "listeners (heap (snd (fold (subscribe G) bs (st, w))) x) =
     listeners (heap w x) @
     zip [next_lid (heap w x)..<next_lid (heap w x) + length (filter (\<lambda>(n, b). target b = x) bs)]
         (map (\<lambda>n. [Forward (target G) n]) (map fst (filter (\<lambda>(n, b). target b = x) bs))) \<and>
   next_lid (heap (snd (fold (subscribe G) bs (st, w))) x) =
     next_lid (heap w x) + length (filter (\<lambda>(n, b). target b = x) bs)"
proof (induction bs arbitrary: st w)
  case Nil
  show ?case by simp
next
  case (Cons nb bs)
  obtain n b where nb: "nb = (n, b)" by (cases nb)
  show ?case
    unfolding nb fold_subscribe_step
    by (simp add: Cons.IH listeners_listen next_lid_listen zip_upt_Cons del: upt_Suc)
qed

lemma createEventHub_listeners:
  "listeners (heap (snd (createEventHub d w)) x) =
     listeners (heap (resolved d w) x) @
     zip [next_lid (heap (resolved d w) x)..<next_lid (heap (snd (createEventHub d w)) x)]
         (map (\<lambda>n. [Forward (fresh w) n])
            (map fst (filter (\<lambda>(n, b). target b = x) (channels_of d w))))"
  "next_lid (heap (snd (createEventHub d w)) x) =
     next_lid (heap (resolved d w) x) + length (filter (\<lambda>(n, b). target b = x) (channels_of d w))"
  using fold_subscribe_listeners[of "fst (createEventBus w)" "channels_of d w" "[]" "resolved d w" x]
  by (simp_all add: createEventHub_world)





lemma filter_filter_implied:
  "\<forall>x \<in> set xs. P x \<longrightarrow> Q x \<Longrightarrow> filter P (filter Q xs) = filter P xs"
  by (induction xs) auto

lemma unheld_kept:
  assumes "\<forall>x i. S x i \<longrightarrow> i < next_lid (heap w x) \<and> (x, i) \<notin> set (handles w)"
  shows "filter (\<lambda>(i, cb). S x i) (listeners (heap (state_of (run_calls d h cs w)) x)) =
         filter (\<lambda>(i, cb). S x i) (listeners (heap w x))"
proof -
  let ?P = "\<lambda>w' :: world. (\<forall>x i. S x i \<longrightarrow> i < next_lid (heap w' x) \<and> (x, i) \<notin> set (handles w')) \<and>
                 (\<forall>x. filter (\<lambda>(i, cb). S x i) (listeners (heap w' x)) =
                      filter (\<lambda>(i, cb). S x i) (listeners (heap w x)))"
  have "?P (state_of (run_calls d h cs w))"
  proof (rule calls_preserve[of ?P])
    show "?P w" using assms by simp
  next
    fix a i p and w' :: world assume "?P w'"
    then show "?P (invoked a i p w')" by simp
  next
    fix a p and w' :: world assume "?P w'"
    then show "?P (record_payload a p w')" by simp
  next
    fix m e b and w' :: world assume "?P w'"
    then show "?P (set_channel m e b w')" by simp
  next
    fix a j and w' :: world assume P: "?P w'" and held: "(a, j) \<in> set (handles w')"
    from P held have nS: "\<not> S a j" by blast
    have "filter (\<lambda>(i, cb). S a i) (filter (\<lambda>(i, cb). i \<noteq> j) (listeners (heap w' a))) =
          filter (\<lambda>(i, cb). S a i) (listeners (heap w' a))"
      by (rule filter_filter_implied) (use nS in auto)
    with P show "?P (bus_unlisten a j (called a j w'))"
      by (simp add: listeners_unlisten)
  next
    fix a cb and w' :: world assume P: "?P w'"
    from P have nS: "\<not> S a (next_lid (heap w' a))" by blast
    from P have lt: "S y i \<Longrightarrow> i < next_lid (heap w' y)" for y i by blast
    from P have nh: "S y i \<Longrightarrow> (y, i) \<notin> set (handles w')" for y i by blast
    have 1: "\<forall>y i. S y i \<longrightarrow>
               i < next_lid (heap (keep (fst (bus_listen a cb w')) (snd (bus_listen a cb w'))) y) \<and>
               (y, i) \<notin> set (handles (keep (fst (bus_listen a cb w')) (snd (bus_listen a cb w'))))"
      using lt nh nS by (auto simp: next_lid_listen fst_listen less_Suc_eq)
    have 2: "\<forall>y. filter (\<lambda>(i, cb). S y i)
                 (listeners (heap (keep (fst (bus_listen a cb w')) (snd (bus_listen a cb w'))) y)) =
               filter (\<lambda>(i, cb). S y i) (listeners (heap w y))"
      using P nS by (simp add: listeners_listen)
    from 1 2 show "?P (keep (fst (bus_listen a cb w')) (snd (bus_listen a cb w')))" by blast
  qed
  then show ?thesis by blast
qed

lemma by_hub_unheld:
  assumes "well_formed (resolved d w)" and "by_hub d w x i"
  shows "i < next_lid (heap (snd (createEventHub d w)) x) \<and>
         (x, i) \<notin> set (handles (snd (createEventHub d w)))"
proof -
  have "handles (snd (createEventHub d w)) = handles (resolved d w)"
    by (simp add: createEventHub_world fold_subscribe_others)
  moreover have "j < next_lid (heap (resolved d w) y)" if "(y, j) \<in> set (handles (resolved d w))" for y j
    using assms(1) that by (auto simp: well_formed_def)
  ultimately show ?thesis using assms(2) by (fastforce simp: by_hub_def)
qed




lemma unheld_stays:
  assumes "(i, cb) \<in> set (listeners (heap w x))"
    and "i < next_lid (heap w x)" and "(x, i) \<notin> set (handles w)"
  shows "(i, cb) \<in> set (listeners (heap (state_of (run_calls d h cs w)) x))"
proof -
  let ?S = "\<lambda>y j. y = x \<and> j = i"
  have "\<forall>y j. ?S y j \<longrightarrow> j < next_lid (heap w y) \<and> (y, j) \<notin> set (handles w)"
    using assms(2,3) by simp
  from unheld_kept[of ?S, OF this, of x d h cs]
  have "filter (\<lambda>(j, c). j = i) (listeners (heap (state_of (run_calls d h cs w)) x)) =
        filter (\<lambda>(j, c). j = i) (listeners (heap w x))"
    by simp
  moreover have "(i, cb) \<in> set (filter (\<lambda>(j, c). j = i) (listeners (heap w x)))"
    using assms(1) by simp
  ultimately have "(i, cb) \<in> set (filter (\<lambda>(j, c). j = i)
                     (listeners (heap (state_of (run_calls d h cs w)) x)))"
    by simp
  then show ?thesis by simp
qed

text \<open>
  C8. \<open>createEventHub\<close> resolves the mapping: the object of the caller, or the one that
  the factory returns when called with \<open>createEventBus\<close>, in the state that the factory
  leaves. In the state it returns, every bus has, after the listeners it had when the
  mapping was resolved, one forwarding listener for each name of the mapping that holds
  it, in the order of the mapping and numbered from the bus's next number on; nothing has
  been emitted, client code has been given no handle, and no mapping object has changed.
  A forwarding listener called with a payload emits \<open>{name, details: payload}\<close> on the
  internal bus and does nothing else. A registration whose handle client code does not
  hold stays in place through every sequence of calls; in a well-formed state each
  registration made by \<open>createEventHub\<close> is one, its handle being dropped, so it stays
  in place through every sequence of calls whatever.
\<close>

theorem createEventHub_subscribes:
  assumes "createEventHub defineChannels w = (hub, w1)"
  shows "mapping_of defineChannels w =
           (case defineChannels of
              Factory f \<Rightarrow> fst (f createEventBus (snd (createEventBus w)))
            | Channels m \<Rightarrow> m) \<and>
         resolved defineChannels w =
           (case defineChannels of
              Factory f \<Rightarrow> snd (f createEventBus (snd (createEventBus w)))
            | Channels m \<Rightarrow> snd (createEventBus w)) \<and>
         channels_of defineChannels w =
           (case defineChannels of
              Factory f \<Rightarrow> (case f createEventBus (snd (createEventBus w)) of
                              (m, w') \<Rightarrow> objects w' m)
            | Channels m \<Rightarrow> objects w m) \<and>
         (\<forall>x. map snd (listeners (heap w1 x)) =
                map snd (listeners (heap (resolved defineChannels w) x)) @
                map (\<lambda>name. [Forward (fresh w) name])
                  (map fst (filter (\<lambda>(name, bus). target bus = x)
                     (channels_of defineChannels w)))) \<and>
         (\<forall>x. map fst (listeners (heap w1 x)) =
                map fst (listeners (heap (resolved defineChannels w) x)) @
                [next_lid (heap (resolved defineChannels w) x)..<next_lid (heap w1 x)]) \<and>
         events w1 = events (resolved defineChannels w) \<and>
         handles w1 = handles (resolved defineChannels w) \<and>
         objects w1 = objects (resolved defineChannels w) \<and>
         (\<forall>d name p w'. run_listener (Suc d) [Forward (fresh w) name] p w'
                           = bus_emit d (fresh w) (Tagged name p) w') \<and>
         (\<forall>d calls x i cb.
              (i, cb) \<in> set (listeners (heap w1 x)) \<and> i < next_lid (heap w1 x) \<and>
              (x, i) \<notin> set (handles w1) \<longrightarrow>
              (i, cb) \<in> set (listeners (heap (state_of (run_calls d hub calls w1)) x))) \<and>
         (well_formed (resolved defineChannels w) \<longrightarrow>
            (\<forall>d calls x i cb.
                (i, cb) \<in> set (listeners (heap w1 x)) \<and> by_hub defineChannels w x i \<longrightarrow>
                (i, cb) \<in> set (listeners (heap (state_of (run_calls d hub calls w1)) x))))"
proof -
  let ?wr = "resolved defineChannels w"
  let ?names = "\<lambda>x. map fst (filter (\<lambda>(name, bus). target bus = x) (channels_of defineChannels w))"
  have w1: "w1 = snd (createEventHub defineChannels w)" using assms by simp
  have 1: "mapping_of defineChannels w =
           (case defineChannels of
              Factory f \<Rightarrow> fst (f createEventBus (snd (createEventBus w)))
            | Channels m \<Rightarrow> m)"
    by (simp add: mapping_of_def resolve_def split: defineChannels.splits)
  have 2: "resolved defineChannels w =
           (case defineChannels of
              Factory f \<Rightarrow> snd (f createEventBus (snd (createEventBus w)))
            | Channels m \<Rightarrow> snd (createEventBus w))"
    by (simp add: resolved_def resolve_def split: defineChannels.splits)
  have 3: "channels_of defineChannels w =
           (case defineChannels of
              Factory f \<Rightarrow> (case f createEventBus (snd (createEventBus w)) of
                              (m, w') \<Rightarrow> objects w' m)
            | Channels m \<Rightarrow> objects w m)"
    by (simp add: channels_of_def mapping_of_def resolved_def resolve_def createEventBus_def
        case_prod_beta split: defineChannels.splits)
  have ls: "listeners (heap w1 x) = listeners (heap ?wr x) @
              zip [next_lid (heap ?wr x)..<next_lid (heap w1 x)]
                  (map (\<lambda>n. [Forward (fresh w) n]) (?names x))" for x
    unfolding w1 by (rule createEventHub_listeners(1))
  have nl: "next_lid (heap w1 x) = next_lid (heap ?wr x) + length (?names x)" for x
    unfolding w1 by (simp add: createEventHub_listeners(2))
  have 4: "map snd (listeners (heap w1 x)) =
             map snd (listeners (heap ?wr x)) @ map (\<lambda>name. [Forward (fresh w) name]) (?names x)" for x
    by (subst ls) (simp add: nl)
  have 5: "map fst (listeners (heap w1 x)) =
             map fst (listeners (heap ?wr x)) @ [next_lid (heap ?wr x)..<next_lid (heap w1 x)]" for x
    by (subst ls) (simp add: nl)
  have 6: "events w1 = events ?wr" "handles w1 = handles ?wr" "objects w1 = objects ?wr"
    by (simp_all add: w1 createEventHub_world fold_subscribe_others)
  have 7: "run_listener (Suc d) [Forward (fresh w) name] p w'
             = bus_emit d (fresh w) (Tagged name p) w'" for d name p w'
    by (rule run_forwarder)
  have 8: "(i, cb) \<in> set (listeners (heap w1 x)) \<and> i < next_lid (heap w1 x) \<and>
           (x, i) \<notin> set (handles w1) \<longrightarrow>
           (i, cb) \<in> set (listeners (heap (state_of (run_calls d hub calls w1)) x))" for d calls x i cb
    using unheld_stays[of i cb w1 x d hub calls] by blast
  have 9: "(i, cb) \<in> set (listeners (heap w1 x)) \<and> by_hub defineChannels w x i \<longrightarrow>
           (i, cb) \<in> set (listeners (heap (state_of (run_calls d hub calls w1)) x))"
    if "well_formed ?wr" for d calls x i cb
    using by_hub_unheld[OF that, of x i] unheld_stays[of i cb w1 x d hub calls]
    unfolding w1 by blast
  from 1 2 3 4 5 6 7 8 9 show ?thesis by blast
qed

theorem createEventHub_subscribes_witness:
  "well_formed (resolved bus_and_stack start) \<and>
   listeners (heap (snd (createEventHub bus_and_stack start)) (Suc 0)) = [(0, [Forward 0 ''a''])] \<and>
   by_hub bus_and_stack start (Suc 0) 0 \<and>
   map snd (listeners (heap (snd (createEventHub bus_and_stack start)) (Suc (Suc 0))))
     = [[Forward 0 ''b'']] \<and>
   (0, [Forward 0 ''a'']) \<in> set (listeners (heap (state_of
      (run_calls 5 (fst (createEventHub bus_and_stack start)) unsubscribing
         (snd (createEventHub bus_and_stack start)))) (Suc 0)))"
proof -
  define h where "h = fst (createEventHub bus_and_stack start)"
  define w1 where "w1 = snd (createEventHub bus_and_stack start)"
  have 1: "createEventHub bus_and_stack start = (h, w1)"
    by (simp add: h_def w1_def)
  have 2: "well_formed (resolved bus_and_stack start)"
    by (simp add: well_formed_def registered_def run_hub bus_and_stack_def)
  have 3: "listeners (heap w1 (Suc 0)) = [(0, [Forward 0 ''a''])]"
    by (simp add: w1_def run_hub bus_and_stack_def)
  have 4: "by_hub bus_and_stack start (Suc 0) 0"
    by (simp add: by_hub_def run_hub bus_and_stack_def)
  have 5: "map fst (filter (\<lambda>(name, bus). target bus = x) (channels_of bus_and_stack start))
             = (if x = Suc 0 then [''a''] else if x = Suc (Suc 0) then [''b''] else [])" for x
    by (simp add: run_hub bus_and_stack_def)
  have 6: "listeners (heap (resolved bus_and_stack start) x) = []" for x
    by (simp add: run_hub bus_and_stack_def)
  have 7: "fresh start = 0" by (simp add: start_def)
  from createEventHub_subscribes[OF 1] 2
  have "(\<forall>x. map snd (listeners (heap w1 x)) =
                map snd (listeners (heap (resolved bus_and_stack start) x)) @
                map (\<lambda>name. [Forward (fresh start) name])
                  (map fst (filter (\<lambda>(name, bus). target bus = x)
                     (channels_of bus_and_stack start))))"
    and "\<forall>d calls x i cb.
                (i, cb) \<in> set (listeners (heap w1 x)) \<and> by_hub bus_and_stack start x i \<longrightarrow>
                (i, cb) \<in> set (listeners (heap (state_of (run_calls d h calls w1)) x))"
    by blast+
  with 2 3 4 show ?thesis
    unfolding 5 6 7 h_def[symmetric] w1_def[symmetric] by simp
qed


section \<open>Every emit, in every state that calls on the hub lead to\<close>















section \<open>Nested emissions\<close>






end
